theory Spec2Isabelle
  imports Main
begin

section \<open>Data model of \<open>t3.py\<close>\<close>

text \<open>
  A mark is one of the two Python strings \<open>"X"\<close> (\<open>MarkX\<close>) and \<open>"O"\<close> (\<open>MarkO\<close>). A board cell holds
  Python's \<open>None\<close> (here \<open>None\<close>) or a mark. The board is the Python list
  \<open>self.board\<close>; \<open>game.__init__\<close> creates it with nine cells and no method changes
  its length. Reading \<open>self.board[i]\<close> with \<open>i\<close> beyond the list raises IndexError
  in Python, so every statement below about a board assumes it has nine cells.
\<close>

datatype mark = MarkX | MarkO

type_synonym cell = "mark option"

record game =
  board :: "cell list"
  moves :: nat

text \<open>\<open>self.other_mark = "XO"[mark == "X"]\<close>: index 1 when the mark is X, index 0 otherwise.\<close>

fun other_mark :: "mark \<Rightarrow> mark" where
  "other_mark m = [MarkX, MarkO] ! (if m = MarkX then 1 else 0)"

text \<open>The class attribute \<open>game.threes\<close>: rows, columns, diagonals, in declaration order.\<close>

definition threes :: "nat list list" where
  "threes = [[0, 1, 2], [3, 4, 5], [6, 7, 8],
             [0, 3, 6], [1, 4, 7], [2, 5, 8],
             [0, 4, 8], [2, 4, 6]]"

text \<open>
  \<open>game.__init__\<close>, lines 224-225: an empty board of nine cells, and
  \<open>moves = 9 - board.count(None)\<close>.
\<close>

definition new_game :: game where
  "new_game = (let b = replicate 9 None in \<lparr>board = b, moves = 9 - count_list b None\<rparr>)"

section \<open>The rules engine\<close>

text \<open>
  \<open>game.winner\<close>: for each mark in \<open>["X", "O"]\<close>, for each line, return the mark when
  all three cells hold it; the empty string otherwise. The empty string is \<open>None\<close> here.
\<close>

fun winner_scan :: "cell list \<Rightarrow> mark list \<Rightarrow> mark option" where
  "winner_scan b [] = None"
| "winner_scan b (m # ms) =
     (if list_ex (\<lambda>three. list_all (\<lambda>sq. b ! sq = Some m) three) threes then Some m
      else winner_scan b ms)"

definition winner :: "game \<Rightarrow> mark option" where
  "winner g = winner_scan (board g) [MarkX, MarkO]"

text \<open>
  \<open>game.check_for_wins\<close>: for each line with
  \<open>sum(self.board[cell] == mark for cell in three) == 2\<close>, return the first cell of the
  line that is None; when the line has none, go on with the next line.
\<close>

fun first_empty :: "cell list \<Rightarrow> nat list \<Rightarrow> nat option" where
  "first_empty b [] = None"
| "first_empty b (c # cs) = (if b ! c = None then Some c else first_empty b cs)"

definition count_mark :: "cell list \<Rightarrow> mark \<Rightarrow> nat list \<Rightarrow> nat" where
  "count_mark b m three = length (filter (\<lambda>c. b ! c = Some m) three)"

fun wins_loop :: "cell list \<Rightarrow> mark \<Rightarrow> nat list list \<Rightarrow> nat option" where
  "wins_loop b m [] = None"
| "wins_loop b m (three # rest) =
     (if count_mark b m three = 2 then
        (case first_empty b three of Some c \<Rightarrow> Some c | None \<Rightarrow> wins_loop b m rest)
      else wins_loop b m rest)"

definition check_for_wins :: "game \<Rightarrow> mark \<Rightarrow> nat option" where
  "check_for_wins g m = wins_loop (board g) m threes"

text \<open>
  \<open>game.check_for_twos\<close> builds a dict from cell to multiplicity. Python dicts keep
  insertion order and \<open>computer.move\<close> iterates over the keys, so the dict is an
  association list: \<open>twos[cell] += 1\<close> updates an entry in place, \<open>twos[cell] = 1\<close>
  appends a new one.
\<close>

type_synonym twos = "(nat \<times> nat) list"

fun bump :: "twos \<Rightarrow> nat \<Rightarrow> twos" where
  "bump [] c = [(c, 1)]"
| "bump ((k, v) # d) c = (if k = c then (k, v + 1) # d else (k, v) # bump d c)"

fun twos_cells :: "cell list \<Rightarrow> nat list \<Rightarrow> twos \<Rightarrow> twos" where
  "twos_cells b [] d = d"
| "twos_cells b (c # cs) d = twos_cells b cs (if b ! c = None then bump d c else d)"

fun twos_loop :: "cell list \<Rightarrow> mark \<Rightarrow> nat list list \<Rightarrow> twos \<Rightarrow> twos" where
  "twos_loop b m [] d = d"
| "twos_loop b m (three # rest) d =
     twos_loop b m rest
       (let diag = map (\<lambda>c. b ! c) three
        in if Some m \<in> set diag \<and> count_list diag None = 2 then twos_cells b three d else d)"

definition check_for_twos :: "game \<Rightarrow> mark \<Rightarrow> twos" where
  "check_for_twos g m = twos_loop (board g) m threes []"

section \<open>The heuristic strategist, \<open>computer.move\<close>\<close>

text \<open>
  Rules 3 and 5 run the same loop, rule 3 for the player's own mark and rule 5 for the
  opponent's: for each \<open>i\<close> in \<open>range(9)\<close> whose cell is None on a copy of the match,
  write the mark there, collect in a set the None cells of every line that then holds
  the mark twice, and return \<open>i\<close> when the set has two elements.
\<close>

fun add_empty :: "cell list \<Rightarrow> nat list \<Rightarrow> nat set \<Rightarrow> nat set" where
  "add_empty b [] s = s"
| "add_empty b (c # cs) s = add_empty b cs (if b ! c = None then insert c s else s)"

fun threat_cells :: "cell list \<Rightarrow> mark \<Rightarrow> nat list list \<Rightarrow> nat set \<Rightarrow> nat set" where
  "threat_cells b m [] s = s"
| "threat_cells b m (three # rest) s =
     threat_cells b m rest (if count_mark b m three = 2 then add_empty b three s else s)"

fun fork_loop :: "game \<Rightarrow> mark \<Rightarrow> nat list \<Rightarrow> nat option" where
  "fork_loop g m [] = None"
| "fork_loop g m (i # rest) =
     (if board g ! i = None then
        (let hypo = g\<lparr>board := (board g)[i := Some m]\<rparr>
         in if card (threat_cells (board hypo) m threes {}) = 2 then Some i
            else fork_loop g m rest)
      else fork_loop g m rest)"

text \<open>
  Rule 4: for each key \<open>i\<close> of \<open>check_for_twos(self.mark)\<close>, play \<open>i\<close> on a copy; with
  \<open>w\<close> the winning cell of the copy and \<open>hypo_twos\<close> the opponent's twos on the copy,
  skip \<open>i\<close> when \<open>w in hypo_twos and hypo_twos[w] > 1\<close>, return \<open>i\<close> otherwise.
  \<open>w\<close> may be None, which is no key of the dict.
\<close>

definition in_twos_gt1 :: "nat option \<Rightarrow> twos \<Rightarrow> bool" where
  "in_twos_gt1 w d =
     (case w of None \<Rightarrow> False
      | Some c \<Rightarrow> (case map_of d c of None \<Rightarrow> False | Some n \<Rightarrow> n > 1))"

fun force_loop :: "game \<Rightarrow> mark \<Rightarrow> nat list \<Rightarrow> nat option" where
  "force_loop g m [] = None"
| "force_loop g m (i # rest) =
     (let hypo = g\<lparr>board := (board g)[i := Some m]\<rparr>;
          w = check_for_wins hypo m;
          hypo_twos = check_for_twos hypo (other_mark m)
      in if in_twos_gt1 w hypo_twos then force_loop g m rest else Some i)"

text \<open>
  Rule 7: the list \<open>corners\<close> and the dict \<open>maps = {0:8, 8:0, 2:6, 6:2}\<close>. The loop
  looks up corners only, and each corner is a key; a lookup of any other key would raise
  KeyError in Python and ends the loop with no result here.
\<close>

definition corners :: "nat list" where
  "corners = [0, 2, 6, 8]"

definition sides :: "nat list" where
  "sides = [1, 3, 5, 7]"

definition maps :: "(nat \<times> nat) list" where
  "maps = [(0, 8), (8, 0), (2, 6), (6, 2)]"

fun opposite_loop :: "game \<Rightarrow> mark \<Rightarrow> nat list \<Rightarrow> nat option" where
  "opposite_loop g m [] = None"
| "opposite_loop g m (corner # rest) =
     (case map_of maps corner of
        None \<Rightarrow> None
      | Some opp \<Rightarrow>
          if board g ! corner = Some (other_mark m) \<and> board g ! opp = None
          then Some opp else opposite_loop g m rest)"

text \<open>Rules 8 and 9: the first element of the list of empty cells, when there is one.\<close>

definition first_of :: "nat list \<Rightarrow> nat option" where
  "first_of xs = (if length xs > 0 then Some (xs ! 0) else None)"

text \<open>
  Rules 5 to 9, then the whole of \<open>computer.move\<close>. The result \<open>None\<close> is Python's
  None, returned when control falls off the end of the function.
\<close>

definition rules_5_to_9 :: "game \<Rightarrow> mark \<Rightarrow> nat option" where
  "rules_5_to_9 g m =
     (case fork_loop g (other_mark m) [0..<9] of Some i \<Rightarrow> Some i | None \<Rightarrow>
      if board g ! 4 = None then Some 4 else
      (case opposite_loop g m corners of Some c \<Rightarrow> Some c | None \<Rightarrow>
      (case first_of (filter (\<lambda>c. board g ! c = None) corners) of Some c \<Rightarrow> Some c | None \<Rightarrow>
       first_of (filter (\<lambda>c. board g ! c = None) sides))))"

definition move :: "game \<Rightarrow> mark \<Rightarrow> nat option" where
  "move g m =
     (case check_for_wins g m of Some c \<Rightarrow> Some c | None \<Rightarrow>
      (case check_for_wins g (other_mark m) of Some c \<Rightarrow> Some c | None \<Rightarrow>
      (case fork_loop g m [0..<9] of Some i \<Rightarrow> Some i | None \<Rightarrow>
      (case force_loop g m (map fst (check_for_twos g m)) of Some i \<Rightarrow> Some i | None \<Rightarrow>
       rules_5_to_9 g m))))"

section \<open>Concrete boards\<close>

definition scenario2 :: game where
  "scenario2 = \<lparr>board = [Some MarkX, Some MarkO, Some MarkX,
                         Some MarkO, Some MarkX, Some MarkO,
                         None, None, None], moves = 6\<rparr>"

definition drawn_board :: game where
  "drawn_board = \<lparr>board = [Some MarkX, Some MarkO, Some MarkX,
                           Some MarkX, Some MarkO, Some MarkO,
                           Some MarkO, Some MarkX, Some MarkX], moves = 9\<rparr>"

section \<open>Lines fully occupied by a mark\<close>

text \<open>
  The notions the statements about \<open>winner\<close> use: a line is fully occupied by a mark
  when each of its three cells holds the mark; a board has a line for a mark when some line
  of \<open>threes\<close> is fully occupied by it; \<open>only_line\<close> says that exactly one line is fully
  occupied by a single mark, \<open>no_line\<close> that no line is.
\<close>

definition occupies :: "cell list \<Rightarrow> mark \<Rightarrow> nat list \<Rightarrow> bool" where
  "occupies b m three = (\<forall>sq\<in>set three. b ! sq = Some m)"

definition has_line :: "cell list \<Rightarrow> mark \<Rightarrow> bool" where
  "has_line b m = (\<exists>three\<in>set threes. occupies b m three)"

definition only_line :: "cell list \<Rightarrow> nat list \<Rightarrow> bool" where
  "only_line b three =
     (three \<in> set threes \<and> (occupies b MarkX three \<or> occupies b MarkO three)
      \<and> (\<forall>t\<in>set threes. occupies b MarkX t \<or> occupies b MarkO t \<longrightarrow> t = three))"

definition no_line :: "cell list \<Rightarrow> bool" where
  "no_line b = (\<forall>t\<in>set threes. \<not> occupies b MarkX t \<and> \<not> occupies b MarkO t)"

section \<open>More concrete boards\<close>

definition o_threat_board :: game where
  "o_threat_board = \<lparr>board = [Some MarkO, Some MarkO, None,
                              Some MarkX, Some MarkX, None,
                              Some MarkX, None, None], moves = 5\<rparr>"

definition o_row_board :: game where
  "o_row_board = \<lparr>board = [Some MarkO, Some MarkO, Some MarkO,
                           Some MarkX, Some MarkX, None,
                           Some MarkX, None, None], moves = 6\<rparr>"

definition both_rows_board :: game where
  "both_rows_board = \<lparr>board = [Some MarkX, Some MarkX, Some MarkX,
                               Some MarkO, Some MarkO, Some MarkO,
                               None, None, None], moves = 6\<rparr>"

definition x_row_board :: game where
  "x_row_board = \<lparr>board = [Some MarkX, Some MarkX, Some MarkX,
                           Some MarkO, Some MarkO, None,
                           None, None, None], moves = 5\<rparr>"

section \<open>Multiplicity of a cell, in the words of the specification\<close>

text \<open>
  A line qualifies for a cell \<open>c\<close> and a mark when it contains \<open>c\<close>, the mark occupies
  exactly one of its cells, and the other two cells, \<open>c\<close> among them, are empty. The
  multiplicity of \<open>c\<close> is the number of qualifying lines.
\<close>

definition qualifying :: "cell list \<Rightarrow> mark \<Rightarrow> nat \<Rightarrow> nat list \<Rightarrow> bool" where
  "qualifying b m c three =
     (c \<in> set three \<and> count_mark b m three = 1
      \<and> (\<forall>x\<in>set three. b ! x \<noteq> Some m \<longrightarrow> b ! x = None) \<and> b ! c = None)"

definition multiplicity :: "cell list \<Rightarrow> mark \<Rightarrow> nat \<Rightarrow> nat" where
  "multiplicity b m c = length (filter (qualifying b m c) threes)"

definition x_corner_board :: game where
  "x_corner_board = \<lparr>board = [Some MarkX, None, None,
                              None, Some MarkO, None,
                              None, None, None], moves = 2\<rparr>"

text \<open>
  For the proofs: a count as a dict entry (no entry for 0), the condition
  \<open>mark in diag and diag.count(None) == 2\<close> of \<open>check_for_twos\<close> on a line, and the same
  with the test \<open>not self.board[cell]\<close> for a cell of the line.
\<close>

definition opt :: "nat \<Rightarrow> nat option" where
  "opt n = (if n = 0 then None else Some n)"

definition line_cond :: "cell list \<Rightarrow> mark \<Rightarrow> nat list \<Rightarrow> bool" where
  "line_cond b m three =
     (Some m \<in> set (map (\<lambda>x. b ! x) three) \<and> count_list (map (\<lambda>x. b ! x) three) None = 2)"

definition src_qual :: "cell list \<Rightarrow> mark \<Rightarrow> nat \<Rightarrow> nat list \<Rightarrow> bool" where
  "src_qual b m c three = (line_cond b m three \<and> c \<in> set three \<and> b ! c = None)"

section \<open>Rule 4, in the words of the specification\<close>

text \<open>
  A candidate cell \<open>i\<close> fails the test of rule 4 when, on the board with the player's mark
  written at \<open>i\<close>, the win cell \<open>w\<close> that \<open>check_for_wins\<close> computes for the player is an
  opponent fork point: a key of the opponent's twos on that board with multiplicity
  greater than 1. The rule plays the first candidate, in the order of the keys of the
  player's twos, that does not fail.
\<close>

definition fork_point :: "game \<Rightarrow> mark \<Rightarrow> nat \<Rightarrow> bool" where
  "fork_point g m i =
     (let hypo = g\<lparr>board := (board g)[i := Some m]\<rparr>
      in case check_for_wins hypo m of
           None \<Rightarrow> False
         | Some w \<Rightarrow> (case map_of (check_for_twos hypo (other_mark m)) w of
                        None \<Rightarrow> False
                      | Some n \<Rightarrow> 1 < n))"

definition first_safe_candidate :: "game \<Rightarrow> mark \<Rightarrow> nat option" where
  "first_safe_candidate g m = find (\<lambda>i. \<not> fork_point g m i) (map fst (check_for_twos g m))"

definition o_corner_board :: game where
  "o_corner_board = \<lparr>board = [Some MarkO, None, None,
                              None, Some MarkX, None,
                              None, None, Some MarkX], moves = 3\<rparr>"

section \<open>The match: \<open>game.check_move\<close> and \<open>game.play\<close>\<close>

text \<open>
  The value a participant's \<open>move\<close> returns: a Python int, None (what \<open>computer.move\<close>
  returns when it falls off its end), or a value of any other type (a str, a float, a
  bool: \<open>type(True)\<close> is not \<open>int\<close>).
\<close>

datatype pyval = PyInt int | PyNone | PyOther

text \<open>
  \<open>game.check_move\<close>: False when \<open>type(move) != int or move > 8 or move < 0\<close>, False
  when \<open>self.board[move]\<close> is truthy (a mark), True otherwise. It prints and changes nothing.
\<close>

definition check_move :: "game \<Rightarrow> pyval \<Rightarrow> bool" where
  "check_move g mv =
     (case mv of
        PyInt i \<Rightarrow> if i > 8 \<or> i < 0 then False
                   else if board g ! nat i \<noteq> None then False else True
      | _ \<Rightarrow> False)"

text \<open>
  Lines 253-254 of \<open>game.play\<close>:
  \<open>self.board[m] = ["X", "O"][self.moves % 2]; self.moves += 1\<close>.
\<close>

definition place :: "game \<Rightarrow> int \<Rightarrow> game" where
  "place g i = g\<lparr>board := (board g)[nat i := Some ([MarkX, MarkO] ! (moves g mod 2))],
                 moves := moves g + 1\<rparr>"

text \<open>
  \<open>game.play\<close>. The answers of the participants (random choices, console input, the
  strategist) are the list \<open>as\<close>, consumed in order, one per call of
  \<open>self.players[self.moves % 2].move(self)\<close>. The inner loop
  \<open>while not self.check_move(m)\<close> asks again while neither the state nor the variable
  \<open>winner\<close> changes, so both loops are one recursion here. \<open>play_loop\<close> gives the log of the
  calls: the index of the participant asked, the state at the call, the answer.
  \<open>play_result\<close> gives the final state and the winner returned; it is \<open>None\<close> when the
  answers run out while the loop still waits for a legal move.
\<close>

type_synonym request = "nat \<times> game \<times> pyval"

fun play_loop :: "game \<Rightarrow> mark option \<Rightarrow> pyval list \<Rightarrow> request list" where
  "play_loop g w [] = []"
| "play_loop g w (a # as) =
     (if moves g < 9 \<and> w = None then
        (moves g mod 2, g, a) #
          (if check_move g a then
             (case a of PyInt i \<Rightarrow> play_loop (place g i) (winner (place g i)) as | _ \<Rightarrow> [])
           else play_loop g w as)
      else [])"

fun play_result :: "game \<Rightarrow> mark option \<Rightarrow> pyval list \<Rightarrow> (game \<times> mark option) option" where
  "play_result g w [] = (if moves g < 9 \<and> w = None then None else Some (g, w))"
| "play_result g w (a # as) =
     (if moves g < 9 \<and> w = None then
        (if check_move g a then
           (case a of PyInt i \<Rightarrow> play_result (place g i) (winner (place g i)) as | _ \<Rightarrow> None)
         else play_result g w as)
      else Some (g, w))"

definition play :: "game \<Rightarrow> pyval list \<Rightarrow> (game \<times> mark option) option" where
  "play g as = play_result g None as"

text \<open>The number of occupied cells of a board: \<open>9 - board.count(None)\<close> on nine cells.\<close>

definition occupied :: "cell list \<Rightarrow> nat" where
  "occupied b = length (filter (\<lambda>c. c \<noteq> None) b)"

definition match_inv :: "game \<Rightarrow> bool" where
  "match_inv g = (length (board g) = 9 \<and> moves g = occupied (board g))"

section \<open>Objects in a store: what \<open>computer.move\<close> writes\<close>

text \<open>
  In Python a match is an object whose attribute \<open>board\<close> refers to a list, and
  \<open>hypo_match.board[i] = mark\<close> writes into whatever list the copy refers to. To say that
  the match itself is not written, objects live in a store: an address of a list is an
  index into \<open>lists\<close>, an address of a game object an index into \<open>objs\<close>, and a new object
  takes the next index. Marks and None are immutable values.
\<close>

record game_obj =
  board_ref :: nat
  obj_moves :: nat

record store =
  lists :: "cell list list"
  objs :: "game_obj list"

text \<open>The match at an address, read as a value: the contents of its board, its move count.\<close>

definition view :: "store \<Rightarrow> nat \<Rightarrow> game" where
  "view s a = \<lparr>board = lists s ! board_ref (objs s ! a), moves = obj_moves (objs s ! a)\<rparr>"

text \<open>
  \<open>dc(match)\<close>, \<open>copy.deepcopy\<close>: a new list with the cells of the board and a new game
  object that refers to it, with the same move count. The result is the new address.
\<close>

definition dc :: "store \<Rightarrow> nat \<Rightarrow> nat \<times> store" where
  "dc s a =
     (let ob = objs s ! a;
          cells = lists s ! board_ref ob
      in (length (objs s),
          s\<lparr>lists := lists s @ [cells],
            objs := objs s @ [\<lparr>board_ref = length (lists s), obj_moves = obj_moves ob\<rparr>]\<rparr>))"

text \<open>\<open>obj.board[i] = v\<close>: a write into the list the object refers to.\<close>

definition set_cell :: "store \<Rightarrow> nat \<Rightarrow> nat \<Rightarrow> cell \<Rightarrow> store" where
  "set_cell s a i v =
     (let r = board_ref (objs s ! a) in s\<lparr>lists := (lists s)[r := (lists s ! r)[i := v]]\<rparr>)"

text \<open>
  The queries \<open>winner\<close>, \<open>check_for_wins\<close> and \<open>check_for_twos\<close> contain no assignment to
  an attribute or to a cell of \<open>self.board\<close>; they read the match and return the store as
  it was.
\<close>

definition winner_st :: "store \<Rightarrow> nat \<Rightarrow> mark option \<times> store" where
  "winner_st s a = (winner (view s a), s)"

definition check_for_wins_st :: "store \<Rightarrow> nat \<Rightarrow> mark \<Rightarrow> nat option \<times> store" where
  "check_for_wins_st s a m = (check_for_wins (view s a) m, s)"

definition check_for_twos_st :: "store \<Rightarrow> nat \<Rightarrow> mark \<Rightarrow> twos \<times> store" where
  "check_for_twos_st s a m = (check_for_twos (view s a) m, s)"

text \<open>
  \<open>computer.move\<close> on the store. Rules 3 and 5: \<open>hypo_match = dc(match)\<close>, then the test
  and the write on the copy. Rule 4: a copy and a write for each candidate.
\<close>

fun fork_loop_st :: "store \<Rightarrow> nat \<Rightarrow> mark \<Rightarrow> nat list \<Rightarrow> nat option \<times> store" where
  "fork_loop_st s a m [] = (None, s)"
| "fork_loop_st s a m (i # rest) =
     (case dc s a of (h, s1) \<Rightarrow>
        if board (view s1 h) ! i = None then
          (let s2 = set_cell s1 h i (Some m)
           in if card (threat_cells (board (view s2 h)) m threes {}) = 2 then (Some i, s2)
              else fork_loop_st s2 a m rest)
        else fork_loop_st s1 a m rest)"

fun force_loop_st :: "store \<Rightarrow> nat \<Rightarrow> mark \<Rightarrow> nat list \<Rightarrow> nat option \<times> store" where
  "force_loop_st s a m [] = (None, s)"
| "force_loop_st s a m (i # rest) =
     (case dc s a of (h, s1) \<Rightarrow>
        (let s2 = set_cell s1 h i (Some m);
             w = fst (check_for_wins_st s2 h m);
             hypo_twos = fst (check_for_twos_st s2 h (other_mark m))
         in if in_twos_gt1 w hypo_twos then force_loop_st s2 a m rest else (Some i, s2)))"

definition rules_6_to_9 :: "game \<Rightarrow> mark \<Rightarrow> nat option" where
  "rules_6_to_9 g m =
     (if board g ! 4 = None then Some 4 else
      (case opposite_loop g m corners of Some c \<Rightarrow> Some c | None \<Rightarrow>
      (case first_of (filter (\<lambda>c. board g ! c = None) corners) of Some c \<Rightarrow> Some c | None \<Rightarrow>
       first_of (filter (\<lambda>c. board g ! c = None) sides))))"

definition move_st :: "store \<Rightarrow> nat \<Rightarrow> mark \<Rightarrow> nat option \<times> store" where
  "move_st s a m =
     (case fst (check_for_wins_st s a m) of Some c \<Rightarrow> (Some c, s) | None \<Rightarrow>
      (case fst (check_for_wins_st s a (other_mark m)) of Some c \<Rightarrow> (Some c, s) | None \<Rightarrow>
      (case fork_loop_st s a m [0..<9] of (Some i, s3) \<Rightarrow> (Some i, s3) | (None, s3) \<Rightarrow>
      (case force_loop_st s3 a m (map fst (fst (check_for_twos_st s3 a m))) of
         (Some i, s4) \<Rightarrow> (Some i, s4) | (None, s4) \<Rightarrow>
      (case fork_loop_st s4 a (other_mark m) [0..<9] of
         (Some i, s5) \<Rightarrow> (Some i, s5) | (None, s5) \<Rightarrow>
       (rules_6_to_9 (view s5 a) m, s5))))))"

text \<open>
  A match at address \<open>a\<close> is in the store when the address and its board reference are
  allocated and the board has nine cells. A store extends another when it has the old
  lists and objects, unchanged, at the old addresses.
\<close>

definition in_store :: "store \<Rightarrow> nat \<Rightarrow> bool" where
  "in_store s a =
     (a < length (objs s) \<and> board_ref (objs s ! a) < length (lists s)
      \<and> length (lists s ! board_ref (objs s ! a)) = 9)"

definition extends :: "store \<Rightarrow> store \<Rightarrow> bool" where
  "extends s s' =
     (take (length (lists s)) (lists s') = lists s \<and> length (lists s) \<le> length (lists s')
      \<and> take (length (objs s)) (objs s') = objs s \<and> length (objs s) \<le> length (objs s'))"

definition o_corner_store :: store where
  "o_corner_store = \<lparr>lists = [board o_corner_board],
                      objs = [\<lparr>board_ref = 0, obj_moves = moves o_corner_board\<rparr>]\<rparr>"

section \<open>Helper facts about the loops\<close>

lemma other_mark_X: "other_mark MarkX = MarkO"
  by simp

lemma other_mark_O: "other_mark MarkO = MarkX"
  by simp

declare other_mark.simps [simp del]
declare other_mark_X [simp] other_mark_O [simp]

lemma move_None_rules: "move g m = None \<Longrightarrow> rules_5_to_9 g m = None"
  unfolding move_def by (simp split: option.splits)

lemma threes_bound: "three \<in> set threes \<Longrightarrow> c \<in> set three \<Longrightarrow> c < 9"
  by (auto simp: threes_def)

lemma threes_shape: "three \<in> set threes \<Longrightarrow> distinct three \<and> length three = 3"
  by (auto simp: threes_def)

lemma first_empty_Some: "first_empty b cs = Some c \<Longrightarrow> c \<in> set cs \<and> b ! c = None"
  by (induction cs) (auto split: if_splits)

lemma first_empty_None: "(first_empty b cs = None) = (\<forall>c\<in>set cs. b ! c \<noteq> None)"
  by (induction cs) auto

lemma wins_loop_Some:
  "wins_loop b m ts = Some c \<Longrightarrow>
   \<exists>three\<in>set ts. count_mark b m three = 2 \<and> first_empty b three = Some c"
  by (induction ts) (auto split: if_splits option.splits)

lemma check_for_wins_empty:
  assumes "check_for_wins g m = Some c"
  shows "c < 9 \<and> board g ! c = None"
proof -
  from assms obtain three where t: "three \<in> set threes" "first_empty (board g) three = Some c"
    unfolding check_for_wins_def by (blast dest: wins_loop_Some)
  from first_empty_Some[OF t(2)] threes_bound[OF t(1)] show ?thesis by blast
qed

lemma fork_loop_Some: "fork_loop g m cs = Some i \<Longrightarrow> i \<in> set cs \<and> board g ! i = None"
  by (induction cs) (auto simp: Let_def split: if_splits)

lemma bump_keys: "fst ` set (bump d c) = insert c (fst ` set d)"
  by (induction d c rule: bump.induct) auto

lemma twos_cells_keys:
  "fst ` set (twos_cells b cs d) = fst ` set d \<union> {c \<in> set cs. b ! c = None}"
  by (induction cs arbitrary: d) (auto simp: bump_keys)

lemma twos_loop_keys:
  "fst ` set (twos_loop b m ts d) \<subseteq> fst ` set d \<union> {c. \<exists>three\<in>set ts. c \<in> set three \<and> b ! c = None}"
proof (induction ts arbitrary: d)
  case Nil
  then show ?case by simp
next
  case (Cons three ts)
  show ?case
    using Cons.IH[of "(let diag = map (\<lambda>c. b ! c) three
        in if Some m \<in> set diag \<and> count_list diag None = 2 then twos_cells b three d else d)"]
    by (auto simp: Let_def twos_cells_keys split: if_splits)
qed

lemma check_for_twos_keys:
  "i \<in> set (map fst (check_for_twos g m)) \<Longrightarrow> i < 9 \<and> board g ! i = None"
  using twos_loop_keys[of "board g" m threes "[]"] threes_bound
  unfolding check_for_twos_def by auto

lemma force_loop_Some: "force_loop g m cs = Some i \<Longrightarrow> i \<in> set cs"
  by (induction cs) (auto simp: Let_def split: if_splits)

lemma opposite_loop_Some:
  "opposite_loop g m cs = Some c \<Longrightarrow> c \<in> snd ` set maps \<and> board g ! c = None"
  by (induction cs) (auto split: if_splits option.splits dest: map_of_SomeD intro: rev_image_eqI)

lemma first_of_filter:
  assumes "first_of (filter P xs) = Some c"
  shows "c \<in> set xs \<and> P c"
proof -
  from assms obtain rest where "filter P xs = c # rest"
    by (cases "filter P xs") (auto simp: first_of_def)
  then have "c \<in> set (filter P xs)" by simp
  then show ?thesis by simp
qed

lemma first_of_filter_None: "(first_of (filter P xs) = None) = (\<forall>x\<in>set xs. \<not> P x)"
  by (auto simp: first_of_def filter_empty_conv)

lemma opposite_loop_bound: "opposite_loop g m cs = Some c \<Longrightarrow> c < 9 \<and> board g ! c = None"
  by (drule opposite_loop_Some) (auto simp: maps_def)

lemma first_of_corners:
  "first_of (filter (\<lambda>c. board g ! c = None) corners) = Some c \<Longrightarrow> c < 9 \<and> board g ! c = None"
  by (drule first_of_filter) (auto simp: corners_def)

lemma first_of_sides:
  "first_of (filter (\<lambda>c. board g ! c = None) sides) = Some c \<Longrightarrow> c < 9 \<and> board g ! c = None"
  by (drule first_of_filter) (auto simp: sides_def)

lemma fork_loop_bound: "fork_loop g m [0..<9] = Some i \<Longrightarrow> i < 9 \<and> board g ! i = None"
  by (drule fork_loop_Some) simp

lemma rules_5_to_9_Some:
  assumes "rules_5_to_9 g m = Some c"
  shows "c < 9 \<and> board g ! c = None"
proof (cases "fork_loop g (other_mark m) [0..<9]")
  case (Some i)
  with assms have "i = c" by (simp add: rules_5_to_9_def)
  with Some show ?thesis by (blast dest: fork_loop_bound)
next
  case r5: None
  show ?thesis
  proof (cases "board g ! 4 = None")
    case True
    with assms r5 show ?thesis by (simp add: rules_5_to_9_def)
  next
    case r6: False
    show ?thesis
    proof (cases "opposite_loop g m corners")
      case (Some i)
      with assms r5 r6 have "i = c" by (simp add: rules_5_to_9_def)
      with Some show ?thesis by (blast dest: opposite_loop_bound)
    next
      case r7: None
      show ?thesis
      proof (cases "first_of (filter (\<lambda>c. board g ! c = None) corners)")
        case (Some i)
        with assms r5 r6 r7 have "i = c" by (simp add: rules_5_to_9_def)
        with Some show ?thesis by (blast dest: first_of_corners)
      next
        case r8: None
        with assms r5 r6 r7
        have "first_of (filter (\<lambda>c. board g ! c = None) sides) = Some c"
          by (simp add: rules_5_to_9_def)
        then show ?thesis by (rule first_of_sides)
      qed
    qed
  qed
qed

lemma rules_5_to_9_None:
  assumes "rules_5_to_9 g m = None"
  shows "board g ! 4 \<noteq> None \<and> (\<forall>c\<in>set corners. board g ! c \<noteq> None)
         \<and> (\<forall>c\<in>set sides. board g ! c \<noteq> None)"
  using assms unfolding rules_5_to_9_def
  by (simp add: first_of_filter_None split: option.splits if_splits)

lemma rules_5_to_9_total:
  assumes "c < 9" "board g ! c = None"
  shows "rules_5_to_9 g m \<noteq> None"
proof
  assume "rules_5_to_9 g m = None"
  from rules_5_to_9_None[OF this]
  have "\<forall>c\<in>{4} \<union> set corners \<union> set sides. board g ! c \<noteq> None" by blast
  moreover have "c \<in> {4} \<union> set corners \<union> set sides"
    using assms(1) unfolding corners_def sides_def by auto
  ultimately show False using assms(2) by blast
qed

lemma move_Some:
  assumes "move g m = Some c"
  shows "c < 9 \<and> board g ! c = None"
  using assms unfolding move_def
  by (auto split: option.splits
      dest!: check_for_wins_empty fork_loop_Some force_loop_Some rules_5_to_9_Some check_for_twos_keys)

lemma nth_not_None:
  assumes "length b = 9" "None \<notin> set b" "c < 9"
  shows "b ! c \<noteq> None"
proof -
  have "b ! c \<in> set b" using assms by simp
  with assms(2) show ?thesis by metis
qed

lemma cover: "{4} \<union> set corners \<union> set sides = {0..<(9::nat)}"
proof -
  have "{0..<(9::nat)} = set [0..<9]" by simp
  also have "[0..<9] = [0, 1, 2, 3, 4, 5, 6, 7, 8::nat]" by (simp add: upt_rec)
  finally show ?thesis unfolding corners_def sides_def by auto
qed

lemma move_not_None:
  assumes r: "rules_5_to_9 g m \<noteq> None"
  shows "move g m \<noteq> None"
proof
  assume "move g m = None"
  from move_None_rules[OF this] r show False by (rule notE[rotated])
qed

lemma wins_loop_None:
  "(\<And>three. three \<in> set ts \<Longrightarrow> first_empty b three = None) \<Longrightarrow> wins_loop b m ts = None"
  by (induction ts) auto

lemma fork_loop_None: "(\<And>i. i \<in> set cs \<Longrightarrow> board g ! i \<noteq> None) \<Longrightarrow> fork_loop g m cs = None"
  by (induction cs) auto

lemma count_list_None_0: "(\<And>c. c \<in> set cs \<Longrightarrow> b ! c \<noteq> None) \<Longrightarrow> count_list (map (\<lambda>c. b ! c) cs) None = 0"
  by (induction cs) auto

lemma twos_loop_full:
  "(\<And>three c. three \<in> set ts \<Longrightarrow> c \<in> set three \<Longrightarrow> b ! c \<noteq> None) \<Longrightarrow> twos_loop b m ts d = d"
proof (induction ts arbitrary: d)
  case Nil
  then show ?case by simp
next
  case (Cons three ts)
  have "count_list (map (\<lambda>c. b ! c) three) None = 0"
    by (rule count_list_None_0) (rule Cons.prems[of three], simp_all)
  moreover have "twos_loop b m ts d = d"
    by (rule Cons.IH) (rule Cons.prems, simp_all)
  ultimately show ?case by (simp add: Let_def)
qed

lemma opposite_loop_None:
  "(\<And>c. c \<in> snd ` set maps \<Longrightarrow> board g ! c \<noteq> None) \<Longrightarrow> opposite_loop g m cs = None"
proof (induction cs)
  case Nil
  then show ?case by simp
next
  case (Cons corner cs)
  show ?case
  proof (cases "map_of maps corner")
    case None
    then show ?thesis by simp
  next
    case (Some opp)
    then have "opp \<in> snd ` set maps" by (force dest: map_of_SomeD)
    with Cons Some show ?thesis by simp
  qed
qed

section \<open>Claims about the strategist\<close>

text \<open>
  Claim C2. On a board of nine cells with at least one empty cell, \<open>computer.move\<close> returns
  a cell index for either mark, and that cell is empty on the board. The fall-through at the
  end of the function is not reached: rules 5 to 9 alone already return a cell, because
  the centre (rule 6), the corners (rule 8) and the sides (rule 9) are all nine cells.
\<close>

theorem move_plays_empty_cell:
  assumes len: "length (board g) = 9" and some: "None \<in> set (board g)"
  shows "(\<exists>c. move g m = Some c \<and> c < 9 \<and> board g ! c = None)
         \<and> rules_5_to_9 g m \<noteq> None
         \<and> {4} \<union> set corners \<union> set sides = {0..<9}"
proof -
  from some obtain c where "c < length (board g)" "board g ! c = None"
    unfolding in_set_conv_nth by blast
  with len have c: "c < 9" "board g ! c = None" by simp_all
  have r: "rules_5_to_9 g m \<noteq> None" by (rule rules_5_to_9_total[OF c])
  then have "move g m \<noteq> None" by (rule move_not_None)
  then obtain c' where "move g m = Some c'" by blast
  with move_Some[OF this] have 1: "\<exists>c. move g m = Some c \<and> c < 9 \<and> board g ! c = None"
    by blast
  note 3 = cover
  from 1 r 3 show ?thesis by blast
qed

theorem move_plays_empty_cell_witness:
  "length (board scenario2) = 9 \<and> None \<in> set (board scenario2)
   \<and> (\<exists>c. move scenario2 MarkO = Some c \<and> c < 9 \<and> board scenario2 ! c = None)"
proof -
  have l: "length (board scenario2) = 9" by (simp add: scenario2_def)
  have f: "None \<in> set (board scenario2)" by (simp add: scenario2_def)
  from move_plays_empty_cell[OF l f, of MarkO] l f show ?thesis by blast
qed

text \<open>
  Claim C5, as the code has it. On the board X O X / O X O / _ _ _ with the player X,
  \<open>check_for_wins\<close> returns 8: the first six lines give no result, and the seventh line,
  the diagonal 0-4-8, holds X twice with cell 8 empty. It comes before the diagonal 2-4-6
  in \<open>threes\<close>, so rule 1 plays 8 and not 6.
\<close>

theorem scenario2_plays_8:
  "move scenario2 MarkX = Some 8
   \<and> check_for_wins scenario2 MarkX = Some 8
   \<and> wins_loop (board scenario2) MarkX (take 6 threes) = None
   \<and> threes ! 6 = [0, 4, 8]
   \<and> count_mark (board scenario2) MarkX [0, 4, 8] = 2
   \<and> first_empty (board scenario2) [0, 4, 8] = Some 8"
  by (simp add: scenario2_def move_def check_for_wins_def threes_def count_mark_def)

theorem scenario2_not_6: "move scenario2 MarkX \<noteq> Some 6"
  by (simp add: scenario2_def move_def check_for_wins_def threes_def count_mark_def)

text \<open>
  Claim C10. On a board of nine cells none of which is empty, \<open>computer.move\<close> returns
  None for either mark: no rule applies and control falls off the end of the function.
\<close>

theorem move_full_board:
  assumes len: "length (board g) = 9" and full: "None \<notin> set (board g)"
  shows "move g m = None"
proof -
  have occ: "board g ! c \<noteq> None" if "c < 9" for c
    using nth_not_None[OF len full that] .
  have line: "board g ! c \<noteq> None" if "three \<in> set threes" "c \<in> set three" for three c
    using occ threes_bound[OF that] .
  have wins: "check_for_wins g k = None" for k
    unfolding check_for_wins_def
    by (rule wins_loop_None) (simp add: first_empty_None line)
  have fork: "fork_loop g k [0..<9] = None" for k
    by (rule fork_loop_None) (simp add: occ)
  have twos: "check_for_twos g m = []"
    unfolding check_for_twos_def by (rule twos_loop_full) (rule line)
  have opp: "opposite_loop g m corners = None"
    by (rule opposite_loop_None) (use occ in \<open>auto simp: maps_def\<close>)
  have c8: "filter (\<lambda>c. board g ! c = None) corners = []"
    by (simp add: corners_def occ)
  have c9: "filter (\<lambda>c. board g ! c = None) sides = []"
    by (simp add: sides_def occ)
  have "rules_5_to_9 g m = None"
    unfolding rules_5_to_9_def by (simp add: fork occ opp c8 c9 first_of_def)
  then show ?thesis
    unfolding move_def by (simp add: wins fork twos)
qed

theorem move_full_board_witness:
  "length (board drawn_board) = 9 \<and> None \<notin> set (board drawn_board)
   \<and> move drawn_board MarkX = None \<and> move drawn_board MarkO = None"
proof -
  have l: "length (board drawn_board) = 9" by (simp add: drawn_board_def)
  have f: "None \<notin> set (board drawn_board)" by (simp add: drawn_board_def)
  from move_full_board[OF l f] l f show ?thesis by blast
qed

section \<open>Facts about \<open>winner\<close> and \<open>check_for_wins\<close>\<close>

lemma winner_cases:
  "winner g = (if has_line (board g) MarkX then Some MarkX
               else if has_line (board g) MarkO then Some MarkO else None)"
  by (simp add: winner_def has_line_def occupies_def list_ex_iff list_all_iff)

lemma threes_nonempty: "three \<in> set threes \<Longrightarrow> three \<noteq> []"
  using threes_shape[of three] by auto

lemma occupies_mark_unique:
  assumes "three \<in> set threes" "occupies b m three" "occupies b k three"
  shows "k = m"
proof -
  from threes_nonempty[OF assms(1)] obtain sq where "sq \<in> set three"
    by (cases three) auto
  with assms(2,3) show ?thesis by (auto simp: occupies_def)
qed

lemma single_other:
  assumes "length xs = 3" "length (filter P xs) = 2" "c \<in> set xs" "\<not> P c" "sq \<in> set xs" "\<not> P sq"
  shows "sq = c"
proof -
  have "length (filter P xs) + length (filter (\<lambda>x. \<not> P x) xs) = length xs"
    by (rule sum_length_filter_compl)
  with assms(1,2) have "length (filter (\<lambda>x. \<not> P x) xs) = 1" by simp
  then obtain y where y: "filter (\<lambda>x. \<not> P x) xs = [y]"
    by (cases "filter (\<lambda>x. \<not> P x) xs") auto
  have "c \<in> set (filter (\<lambda>x. \<not> P x) xs)" "sq \<in> set (filter (\<lambda>x. \<not> P x) xs)"
    using assms(3-6) by simp_all
  then show ?thesis unfolding y by simp
qed

lemma completes_line:
  assumes len: "length b = 9" and t: "three \<in> set threes"
      and cnt: "count_mark b m three = 2" and fe: "first_empty b three = Some c"
  shows "occupies (b[c := Some m]) m three"
proof -
  from first_empty_Some[OF fe] have c: "c \<in> set three" "b ! c = None" by simp_all
  from threes_bound[OF t c(1)] len have cl: "c < length b" by simp
  from threes_shape[OF t] have l3: "length three = 3" by simp
  have "b[c := Some m] ! sq = Some m" if sq: "sq \<in> set three" for sq
  proof (cases "sq = c")
    case True
    with cl show ?thesis by simp
  next
    case False
    have "b ! sq = Some m"
    proof (rule ccontr)
      assume "b ! sq \<noteq> Some m"
      from single_other[of three "\<lambda>x. b ! x = Some m" c sq] l3 cnt c sq this
      have "sq = c" by (simp add: count_mark_def)
      with False show False by simp
    qed
    with False show ?thesis by simp
  qed
  then show ?thesis by (simp add: occupies_def)
qed

lemma occupies_update_other:
  assumes "occupies (b[c := Some m]) k three" "k \<noteq> m" "c < length b"
  shows "occupies b k three"
  unfolding occupies_def
proof
  fix sq assume sq: "sq \<in> set three"
  with assms(1) have 1: "b[c := Some m] ! sq = Some k" by (simp add: occupies_def)
  with assms(2,3) have "sq \<noteq> c" by auto
  with 1 show "b ! sq = Some k" by simp
qed

section \<open>Claims about the rules engine\<close>

text \<open>
  Claim C1, as the code has it. On a board of nine cells, when \<open>check_for_wins\<close> returns
  a cell for a mark, that cell is empty; and writing the mark there gives a board on which
  \<open>winner\<close> returns the mark, provided the mark is X or \<open>winner\<close> does not return X on
  the given board. (\<open>winner\<close> looks for a line of X before it looks for a line of O.)
\<close>

theorem check_for_wins_wins:
  assumes len: "length (board g) = 9" and w: "check_for_wins g m = Some c"
      and nox: "m = MarkX \<or> winner g \<noteq> Some MarkX"
  shows "board g ! c = None \<and> winner (g\<lparr>board := (board g)[c := Some m]\<rparr>) = Some m"
proof -
  let ?b = "board g" and ?b' = "(board g)[c := Some m]"
  from w obtain three where t: "three \<in> set threes" "count_mark ?b m three = 2"
      "first_empty ?b three = Some c"
    unfolding check_for_wins_def by (blast dest: wins_loop_Some)
  from check_for_wins_empty[OF w] len have c: "c < length ?b" "?b ! c = None" by simp_all
  have line: "has_line ?b' m"
    unfolding has_line_def using completes_line[OF len t] t(1) by blast
  show ?thesis
  proof (cases m)
    case MarkX
    with line c(2) show ?thesis by (simp add: winner_cases)
  next
    case MarkO
    with nox have nx: "\<not> has_line ?b MarkX" by (simp add: winner_cases split: if_splits)
    have "\<not> has_line ?b' MarkX"
    proof
      assume "has_line ?b' MarkX"
      then obtain t' where t': "t' \<in> set threes" "occupies ?b' MarkX t'"
        unfolding has_line_def by blast
      from occupies_update_other[OF t'(2) _ c(1)] MarkO have "occupies ?b MarkX t'" by simp
      with t'(1) nx show False unfolding has_line_def by blast
    qed
    with line MarkO c(2) show ?thesis by (simp add: winner_cases)
  qed
qed

theorem check_for_wins_wins_witness:
  "length (board o_threat_board) = 9 \<and> check_for_wins o_threat_board MarkO = Some 2
   \<and> winner o_threat_board = None
   \<and> board o_threat_board ! 2 = None
   \<and> winner (o_threat_board\<lparr>board := (board o_threat_board)[2 := Some MarkO]\<rparr>) = Some MarkO"
proof -
  have l: "length (board o_threat_board) = 9" by (simp add: o_threat_board_def)
  have w: "check_for_wins o_threat_board MarkO = Some 2"
    by (simp add: o_threat_board_def check_for_wins_def threes_def count_mark_def)
  have n: "winner o_threat_board = None"
    by (simp add: o_threat_board_def winner_def threes_def)
  then have "MarkO = MarkX \<or> winner o_threat_board \<noteq> Some MarkX" by simp
  from check_for_wins_wins[OF l w this] l w n show ?thesis by simp
qed

text \<open>
  The claim without the proviso fails: on X X X / O O _ / _ _ _ the cell 5 is returned
  for O, and with O written there \<open>winner\<close> still returns X.
\<close>

theorem check_for_wins_o_after_x_line:
  "length (board x_row_board) = 9
   \<and> check_for_wins x_row_board MarkO = Some 5
   \<and> winner (x_row_board\<lparr>board := (board x_row_board)[5 := Some MarkO]\<rparr>) = Some MarkX
   \<and> winner (x_row_board\<lparr>board := (board x_row_board)[5 := Some MarkO]\<rparr>) \<noteq> Some MarkO"
  by (simp add: x_row_board_def check_for_wins_def winner_def threes_def count_mark_def)


text \<open>
  Claim C3. On a board of nine cells: when exactly one line is fully occupied by a single
  mark, \<open>winner\<close> returns that mark; when no line is fully occupied, \<open>winner\<close> returns
  the no-winner value; and when both marks have a full line, the scan for X comes first,
  so \<open>winner\<close> returns X.
\<close>

theorem winner_lines:
  assumes len: "length (board g) = 9"
  shows "(only_line (board g) three \<and> occupies (board g) m three \<longrightarrow> winner g = Some m)
       \<and> (no_line (board g) \<longrightarrow> winner g = None)
       \<and> (has_line (board g) MarkX \<and> has_line (board g) MarkO \<longrightarrow> winner g = Some MarkX)"
proof (intro conjI impI)
  assume a: "only_line (board g) three \<and> occupies (board g) m three"
  then have t: "three \<in> set threes" and o: "occupies (board g) m three"
    and u: "\<And>t. t \<in> set threes \<Longrightarrow> occupies (board g) MarkX t \<or> occupies (board g) MarkO t \<Longrightarrow> t = three"
    unfolding only_line_def by blast+
  from t o have hm: "has_line (board g) m" unfolding has_line_def by blast
  show "winner g = Some m"
  proof (cases m)
    case MarkX
    with hm show ?thesis by (simp add: winner_cases)
  next
    case MarkO
    have "\<not> has_line (board g) MarkX"
    proof
      assume "has_line (board g) MarkX"
      then obtain t' where t': "t' \<in> set threes" "occupies (board g) MarkX t'"
        unfolding has_line_def by blast
      with u have "t' = three" by blast
      with t' o t have "m = MarkX" by (blast dest: occupies_mark_unique)
      with MarkO show False by simp
    qed
    with hm MarkO show ?thesis by (simp add: winner_cases)
  qed
next
  assume "no_line (board g)"
  then have "\<not> has_line (board g) MarkX" "\<not> has_line (board g) MarkO"
    unfolding no_line_def has_line_def by blast+
  then show "winner g = None" by (simp add: winner_cases)
next
  assume "has_line (board g) MarkX \<and> has_line (board g) MarkO"
  then show "winner g = Some MarkX" by (simp add: winner_cases)
qed

theorem winner_lines_witness:
  "winner o_row_board = Some MarkO \<and> winner scenario2 = None
   \<and> winner both_rows_board = Some MarkX"
proof -
  have 1: "length (board o_row_board) = 9" "only_line (board o_row_board) [0, 1, 2]"
    "occupies (board o_row_board) MarkO [0, 1, 2]"
    by (simp_all add: o_row_board_def only_line_def occupies_def threes_def)
  have 2: "length (board scenario2) = 9" "no_line (board scenario2)"
    by (simp_all add: scenario2_def no_line_def occupies_def threes_def)
  have 3: "length (board both_rows_board) = 9" "has_line (board both_rows_board) MarkX"
    "has_line (board both_rows_board) MarkO"
    by (simp_all add: both_rows_board_def has_line_def occupies_def threes_def)
  from winner_lines[OF 1(1), of "[0, 1, 2]" MarkO] 1 have "winner o_row_board = Some MarkO"
    by blast
  moreover from winner_lines[OF 2(1)] 2 have "winner scenario2 = None" by blast
  moreover from winner_lines[OF 3(1)] 3 have "winner both_rows_board = Some MarkX" by blast
  ultimately show ?thesis by blast
qed

section \<open>Facts about \<open>check_for_twos\<close>\<close>

lemma map_of_bump:
  "map_of (bump d c) = (map_of d)(c \<mapsto> (case map_of d c of None \<Rightarrow> 1 | Some v \<Rightarrow> v + 1))"
  by (induction d c rule: bump.induct) (auto simp: fun_eq_iff)

lemma distinct_bump: "distinct (map fst d) \<Longrightarrow> distinct (map fst (bump d c))"
proof (induction d c rule: bump.induct)
  case (1 c)
  then show ?case by simp
next
  case (2 k v d c)
  have "fst ` set (bump d c) = insert c (fst ` set d)" by (rule bump_keys)
  with 2 show ?case by auto
qed

lemma bump_opt:
  assumes "map_of d c = opt n"
  shows "map_of (bump d c) c = opt (Suc n)"
  using assms by (simp add: map_of_bump opt_def split: if_splits)

lemma bump_other: "c' \<noteq> c \<Longrightarrow> map_of (bump d c) c' = map_of d c'"
  by (simp add: map_of_bump)

lemma twos_cells_opt:
  assumes "distinct cs" "map_of d c = opt n"
  shows "map_of (twos_cells b cs d) c = opt (if c \<in> set cs \<and> b ! c = None then Suc n else n)"
  using assms
proof (induction cs arbitrary: d n)
  case Nil
  then show ?case by simp
next
  case (Cons x cs)
  from Cons.prems have dist: "distinct cs" and nin: "x \<notin> set cs" by simp_all
  show ?case
  proof (cases "b ! x = None")
    case False
    with Cons.IH[OF dist Cons.prems(2)] show ?thesis by auto
  next
    case empty: True
    show ?thesis
    proof (cases "x = c")
      case True
      from bump_opt[OF Cons.prems(2)] True have "map_of (bump d x) c = opt (Suc n)" by simp
      from Cons.IH[OF dist this] True nin empty show ?thesis by simp
    next
      case False
      then have "map_of (bump d x) c = opt n" using Cons.prems(2) by (simp add: bump_other)
      from Cons.IH[OF dist this] False empty show ?thesis by auto
    qed
  qed
qed

lemma twos_cells_distinct: "distinct (map fst d) \<Longrightarrow> distinct (map fst (twos_cells b cs d))"
  by (induction cs arbitrary: d) (auto simp: distinct_bump)

lemma twos_loop_Cons:
  "twos_loop b m (three # ts) d =
     twos_loop b m ts (if line_cond b m three then twos_cells b three d else d)"
  by (simp add: Let_def line_cond_def)

lemma twos_loop_opt:
  assumes "\<And>three. three \<in> set ts \<Longrightarrow> distinct three" "map_of d c = opt n"
  shows "map_of (twos_loop b m ts d) c = opt (n + length (filter (src_qual b m c) ts))"
  using assms
proof (induction ts arbitrary: d n)
  case Nil
  then show ?case by simp
next
  case (Cons three ts)
  have dist: "distinct three" and rest: "\<And>t. t \<in> set ts \<Longrightarrow> distinct t"
    using Cons.prems(1) by simp_all
  show ?case
  proof (cases "line_cond b m three")
    case True
    let ?k = "if c \<in> set three \<and> b ! c = None then Suc n else n"
    from twos_cells_opt[OF dist Cons.prems(2), of b]
    have "map_of (twos_cells b three d) c = opt ?k" .
    from Cons.IH[OF rest this]
    have "map_of (twos_loop b m (three # ts) d) c = opt (?k + length (filter (src_qual b m c) ts))"
      using True by (simp only: twos_loop_Cons if_True)
    moreover have "?k + length (filter (src_qual b m c) ts)
                   = n + length (filter (src_qual b m c) (three # ts))"
      using True by (simp add: src_qual_def)
    ultimately show ?thesis by simp
  next
    case False
    from Cons.IH[OF rest Cons.prems(2)]
    have "map_of (twos_loop b m (three # ts) d) c = opt (n + length (filter (src_qual b m c) ts))"
      using False by (simp only: twos_loop_Cons if_False)
    moreover have "filter (src_qual b m c) (three # ts) = filter (src_qual b m c) ts"
      using False by (simp add: src_qual_def)
    ultimately show ?thesis by simp
  qed
qed

lemma twos_loop_distinct: "distinct (map fst d) \<Longrightarrow> distinct (map fst (twos_loop b m ts d))"
  by (induction ts arbitrary: d) (auto simp: Let_def twos_cells_distinct)

lemma count_list_map_None:
  "count_list (map f xs) None = length (filter (\<lambda>x. f x = None) xs)"
  by (induction xs) auto

lemma src_qual_iff:
  assumes "length three = 3"
  shows "src_qual b m c three = qualifying b m c three"
proof -
  from assms obtain x y z where t: "three = [x, y, z]"
    by (cases three; cases "tl three"; cases "tl (tl three)") auto
  show ?thesis
    unfolding t src_qual_def line_cond_def qualifying_def count_mark_def count_list_map_None
    by (cases "b ! x"; cases "b ! y"; cases "b ! z") auto
qed

lemma filter_src_qual: "filter (src_qual b m c) threes = filter (qualifying b m c) threes"
  by (rule filter_cong) (simp_all add: src_qual_iff threes_shape)


text \<open>
  Claim C4. On a board of nine cells, the dict that \<open>check_for_twos\<close> returns for a mark
  maps a cell to its multiplicity, the number of lines that qualify for the cell, and a
  cell with no qualifying line is not a key; each key occurs once.
\<close>

theorem check_for_twos_multiplicity:
  assumes "length (board g) = 9"
  shows "map_of (check_for_twos g m) c =
           (if multiplicity (board g) m c = 0 then None else Some (multiplicity (board g) m c))
         \<and> distinct (map fst (check_for_twos g m))"
proof -
  have "map_of [] c = opt 0" by (simp add: opt_def)
  from twos_loop_opt[OF _ this, of threes "board g" m]
  have "map_of (check_for_twos g m) c = opt (length (filter (src_qual (board g) m c) threes))"
    by (simp add: check_for_twos_def threes_shape)
  then have "map_of (check_for_twos g m) c = opt (multiplicity (board g) m c)"
    by (simp add: filter_src_qual multiplicity_def)
  moreover have "distinct (map fst (check_for_twos g m))"
    unfolding check_for_twos_def by (rule twos_loop_distinct) simp
  ultimately show ?thesis by (simp add: opt_def)
qed

theorem check_for_twos_multiplicity_witness:
  "length (board x_corner_board) = 9
   \<and> check_for_twos x_corner_board MarkX = [(1, 1), (2, 1), (3, 1), (6, 1)]
   \<and> multiplicity (board x_corner_board) MarkX 1 = 1
   \<and> multiplicity (board x_corner_board) MarkX 8 = 0
   \<and> map_of (check_for_twos x_corner_board MarkX) 1 = Some 1
   \<and> map_of (check_for_twos x_corner_board MarkX) 8 = None"
proof -
  have l: "length (board x_corner_board) = 9" by (simp add: x_corner_board_def)
  have t: "check_for_twos x_corner_board MarkX = [(1, 1), (2, 1), (3, 1), (6, 1)]"
    by (simp add: x_corner_board_def check_for_twos_def threes_def)
  have m1: "multiplicity (board x_corner_board) MarkX 1 = 1"
    by (simp add: x_corner_board_def multiplicity_def qualifying_def count_mark_def threes_def)
  have m8: "multiplicity (board x_corner_board) MarkX 8 = 0"
    by (simp add: x_corner_board_def multiplicity_def qualifying_def count_mark_def threes_def)
  from check_for_twos_multiplicity[OF l, of MarkX 1] check_for_twos_multiplicity[OF l, of MarkX 8]
    l t m1 m8 show ?thesis by simp
qed

section \<open>Facts about rule 4\<close>

lemma force_loop_find: "force_loop g m ks = find (\<lambda>i. \<not> fork_point g m i) ks"
  by (induction ks) (simp_all add: Let_def fork_point_def in_twos_gt1_def)

lemma find_skips:
  "(\<And>j. j \<in> set ks \<Longrightarrow> \<not> P j) \<Longrightarrow> P i \<Longrightarrow> find P (ks @ i # rest) = Some i"
  by (induction ks) simp_all


text \<open>
  Claim C6. On a board of nine cells on which rules 1 to 3 do not apply, \<open>computer.move\<close>
  plays the first safe candidate of rule 4 when there is one, and the result of rules 5 to 9
  otherwise; a candidate is played when all the candidates before it fail the test; and
  when the player's twos are empty the result is that of rules 5 to 9.
\<close>

theorem rule4_first_safe_candidate:
  assumes "length (board g) = 9"
      and r1: "check_for_wins g m = None"
      and r2: "check_for_wins g (other_mark m) = None"
      and r3: "fork_loop g m [0..<9] = None"
  shows "move g m = (case first_safe_candidate g m of Some i \<Rightarrow> Some i
                                                   | None \<Rightarrow> rules_5_to_9 g m)
       \<and> (map fst (check_for_twos g m) = ks @ i # rest \<and> (\<forall>j\<in>set ks. fork_point g m j)
            \<and> \<not> fork_point g m i \<longrightarrow> move g m = Some i)
       \<and> (check_for_twos g m = [] \<longrightarrow> move g m = rules_5_to_9 g m)"
proof -
  have mv: "move g m = (case first_safe_candidate g m of Some i \<Rightarrow> Some i
                                                    | None \<Rightarrow> rules_5_to_9 g m)"
    by (simp add: move_def r1 r2 r3 force_loop_find first_safe_candidate_def)
  have skip: "move g m = Some i"
    if "map fst (check_for_twos g m) = ks @ i # rest" "\<forall>j\<in>set ks. fork_point g m j"
       "\<not> fork_point g m i"
  proof -
    have "find (\<lambda>i. \<not> fork_point g m i) (ks @ i # rest) = Some i"
      by (rule find_skips) (use that in simp_all)
    with that(1) have "first_safe_candidate g m = Some i" by (simp add: first_safe_candidate_def)
    with mv show ?thesis by simp
  qed
  have empty: "move g m = rules_5_to_9 g m" if "check_for_twos g m = []"
    using mv that by (simp add: first_safe_candidate_def)
  from mv skip empty show ?thesis by blast
qed

theorem rule4_first_safe_candidate_witness:
  "map fst (check_for_twos o_corner_board MarkO) = [1, 2, 3, 6]
   \<and> fork_point o_corner_board MarkO 1 \<and> \<not> fork_point o_corner_board MarkO 2
   \<and> first_safe_candidate o_corner_board MarkO = Some 2
   \<and> move o_corner_board MarkO = Some 2
   \<and> check_for_twos new_game MarkX = [] \<and> move new_game MarkX = rules_5_to_9 new_game MarkX
   \<and> rules_5_to_9 new_game MarkX = Some 4"
proof -
  have l: "length (board o_corner_board) = 9" by code_simp
  have r1: "check_for_wins o_corner_board MarkO = None" by code_simp
  have r2: "check_for_wins o_corner_board (other_mark MarkO) = None" by code_simp
  have r3: "fork_loop o_corner_board MarkO [0..<9] = None" by code_simp
  have ks: "map fst (check_for_twos o_corner_board MarkO) = [1, 2, 3, 6]" by code_simp
  have f1: "fork_point o_corner_board MarkO 1" by code_simp
  have f2: "\<not> fork_point o_corner_board MarkO 2" by code_simp
  have fs: "first_safe_candidate o_corner_board MarkO = Some 2" by code_simp
  have ks': "map fst (check_for_twos o_corner_board MarkO) = [1] @ 2 # [3, 6]
             \<and> (\<forall>j\<in>set [1]. fork_point o_corner_board MarkO j)
             \<and> \<not> fork_point o_corner_board MarkO 2"
    using ks f1 f2 by simp
  have A: "move o_corner_board MarkO = Some 2"
    using rule4_first_safe_candidate[OF l r1 r2 r3, of "[1]" 2 "[3, 6]"] ks' by blast
  have nl: "length (board new_game) = 9" by code_simp
  have n1: "check_for_wins new_game MarkX = None" by code_simp
  have n2: "check_for_wins new_game (other_mark MarkX) = None" by code_simp
  have n3: "fork_loop new_game MarkX [0..<9] = None" by code_simp
  have nt: "check_for_twos new_game MarkX = []" by code_simp
  have B: "move new_game MarkX = rules_5_to_9 new_game MarkX"
    using rule4_first_safe_candidate[OF nl n1 n2 n3] nt by blast
  have C: "rules_5_to_9 new_game MarkX = Some 4" by code_simp
  from ks f1 f2 fs A nt B C show ?thesis by blast
qed

section \<open>Facts about the match\<close>

lemma check_move_PyInt:
  "check_move g a \<Longrightarrow> \<exists>i. a = PyInt i \<and> 0 \<le> i \<and> i \<le> 8 \<and> board g ! nat i = None"
  by (cases a) (auto simp: check_move_def split: if_splits)

lemma occupied_update:
  "i < length b \<Longrightarrow> b ! i = None \<Longrightarrow> occupied (b[i := Some m]) = Suc (occupied b)"
proof (induction b arbitrary: i)
  case Nil
  then show ?case by simp
next
  case (Cons x b)
  then show ?case by (cases i) (auto simp: occupied_def)
qed

lemma place_inv:
  assumes "match_inv g" "check_move g (PyInt i)"
  shows "match_inv (place g i)"
proof -
  from check_move_PyInt[OF assms(2)] have i: "0 \<le> i" "i \<le> 8" "board g ! nat i = None" by simp_all
  from assms(1) have l: "length (board g) = 9" and m: "moves g = occupied (board g)"
    by (simp_all add: match_inv_def)
  from i l have "nat i < length (board g)" by simp
  from occupied_update[OF this i(3)] l m show ?thesis
    by (simp add: match_inv_def place_def)
qed

lemma play_loop_inv:
  "match_inv g \<Longrightarrow> (k, g', a) \<in> set (play_loop g w as) \<Longrightarrow> match_inv g' \<and> k = moves g' mod 2"
proof (induction as arbitrary: g w)
  case Nil
  then show ?case by simp
next
  case (Cons x as)
  show ?case
  proof (cases "moves g < 9 \<and> w = None")
    case False
    with Cons.prems show ?thesis by simp
  next
    case go: True
    show ?thesis
    proof (cases "check_move g x")
      case False
      with go Cons.prems(2)
      have "(k, g', a) = (moves g mod 2, g, x) \<or> (k, g', a) \<in> set (play_loop g w as)" by simp
      with Cons.IH[OF Cons.prems(1)] Cons.prems(1) show ?thesis by auto
    next
      case True
      then obtain i where x: "x = PyInt i" by (blast dest: check_move_PyInt)
      with go True Cons.prems(2)
      have "(k, g', a) = (moves g mod 2, g, x)
            \<or> (k, g', a) \<in> set (play_loop (place g i) (winner (place g i)) as)" by simp
      moreover from place_inv[OF Cons.prems(1)] True x have "match_inv (place g i)" by simp
      ultimately show ?thesis using Cons.IH Cons.prems(1) by auto
    qed
  qed
qed

lemma play_result_inv:
  "match_inv g \<Longrightarrow> play_result g w as = Some (g', w') \<Longrightarrow> match_inv g'"
proof (induction as arbitrary: g w)
  case Nil
  then show ?case by (simp split: if_splits)
next
  case (Cons x as)
  show ?case
  proof (cases "moves g < 9 \<and> w = None")
    case False
    with Cons.prems show ?thesis by simp
  next
    case go: True
    show ?thesis
    proof (cases "check_move g x")
      case False
      with go Cons.prems(2) have "play_result g w as = Some (g', w')" by simp
      from Cons.IH[OF Cons.prems(1) this] show ?thesis .
    next
      case True
      then obtain i where x: "x = PyInt i" by (blast dest: check_move_PyInt)
      with go True Cons.prems(2)
      have "play_result (place g i) (winner (place g i)) as = Some (g', w')" by simp
      moreover from place_inv[OF Cons.prems(1)] True x have "match_inv (place g i)" by simp
      ultimately show ?thesis using Cons.IH by blast
    qed
  qed
qed

lemma new_game_inv: "match_inv new_game"
  by code_simp

lemma place_cells:
  assumes "length (board g) = 9" "check_move g (PyInt i)"
  shows "board g ! nat i = None"
    and "board (place g i) ! nat i = Some (if even (moves g) then MarkX else MarkO)"
    and "\<And>c. board g ! c \<noteq> None \<Longrightarrow> board (place g i) ! c = board g ! c"
    and "moves (place g i) = moves g + 1"
proof -
  from check_move_PyInt[OF assms(2)] have i: "0 \<le> i" "i \<le> 8" "board g ! nat i = None" by simp_all
  show "board g ! nat i = None" by (rule i(3))
  from i assms(1) have "nat i < length (board g)" by simp
  then show "board (place g i) ! nat i = Some (if even (moves g) then MarkX else MarkO)"
    by (simp add: place_def even_iff_mod_2_eq_zero)
  show "board (place g i) ! c = board g ! c" if "board g ! c \<noteq> None" for c
  proof -
    from that i(3) have "c \<noteq> nat i" by auto
    then show ?thesis by (simp add: place_def)
  qed
  show "moves (place g i) = moves g + 1" by (simp add: place_def)
qed


lemma play_loop_hd:
  "play_loop g w as \<noteq> [] \<Longrightarrow> \<exists>x. hd (play_loop g w as) = (moves g mod 2, g, x)"
  by (cases as) (auto split: if_splits)

lemma play_loop_retry:
  "Suc n < length (play_loop g w as) \<Longrightarrow> play_loop g w as ! n = (k, s, x)
   \<Longrightarrow> \<not> check_move s x \<Longrightarrow> \<exists>x'. play_loop g w as ! Suc n = (k, s, x')"
proof (induction as arbitrary: g w n)
  case Nil
  then show ?case by simp
next
  case (Cons a as)
  from Cons.prems(1) have go: "moves g < 9 \<and> w = None" by (auto split: if_splits)
  define rest where "rest = (if check_move g a then
             (case a of PyInt i \<Rightarrow> play_loop (place g i) (winner (place g i)) as | _ \<Rightarrow> [])
           else play_loop g w as)"
  have L: "play_loop g w (a # as) = (moves g mod 2, g, a) # rest"
    using go by (simp add: rest_def)
  show ?case
  proof (cases n)
    case 0
    from Cons.prems(2) have "((moves g mod 2, g, a) # rest) ! 0 = (k, s, x)"
      unfolding L 0 .
    then have e: "k = moves g mod 2" "s = g" "x = a" by auto
    with Cons.prems(3) have r: "rest = play_loop g w as" by (simp add: rest_def)
    from Cons.prems(1) have "Suc n < length ((moves g mod 2, g, a) # rest)" unfolding L .
    with 0 have "rest \<noteq> []" by auto
    with r play_loop_hd[of g w as] obtain x' where "hd rest = (moves g mod 2, g, x')" by auto
    with \<open>rest \<noteq> []\<close> have "rest ! 0 = (k, s, x')" using e by (simp add: hd_conv_nth)
    with L 0 show ?thesis by simp
  next
    case (Suc n')
    from Cons.prems(1,2) have "Suc n < length ((moves g mod 2, g, a) # rest)"
      "((moves g mod 2, g, a) # rest) ! n = (k, s, x)"
      unfolding L by simp_all
    with Suc have p: "Suc n' < length rest" "rest ! n' = (k, s, x)" by simp_all
    have "\<exists>x'. rest ! Suc n' = (k, s, x')"
    proof (cases "check_move g a")
      case False
      then have "rest = play_loop g w as" by (simp add: rest_def)
      with p Cons.IH[of n' g w] Cons.prems(3) show ?thesis by simp
    next
      case True
      then obtain i where "a = PyInt i" by (blast dest: check_move_PyInt)
      with True have "rest = play_loop (place g i) (winner (place g i)) as" by (simp add: rest_def)
      with p Cons.IH[of n' "place g i" "winner (place g i)"] Cons.prems(3) show ?thesis by simp
    qed
    with L Suc show ?thesis by simp
  qed
qed


section \<open>Claims about the match\<close>

text \<open>
  Claim C7. In a run of \<open>game.play\<close> from the state \<open>game.__init__\<close> creates, whatever
  the participants answer: each applied move is an int whose cell was empty, it leaves
  every occupied cell as it was, it writes X when the move count is even and O when it is
  odd, and before and after it the move count is the number of occupied cells; the
  participant asked is the one at index move count modulo 2.
\<close>

theorem play_invariant:
  assumes "(k, g, a) \<in> set (play_loop new_game None as)" and "check_move g a"
  shows "\<exists>i. a = PyInt i
           \<and> moves g = occupied (board g)
           \<and> board g ! nat i = None
           \<and> (\<forall>c. board g ! c \<noteq> None \<longrightarrow> board (place g i) ! c = board g ! c)
           \<and> board (place g i) ! nat i = Some (if even (moves g) then MarkX else MarkO)
           \<and> moves (place g i) = occupied (board (place g i))
           \<and> k = moves g mod 2"
proof -
  from play_loop_inv[OF new_game_inv assms(1)] have inv: "match_inv g" and k: "k = moves g mod 2"
    by simp_all
  from check_move_PyInt[OF assms(2)] obtain i where a: "a = PyInt i" by blast
  with assms(2) have cm: "check_move g (PyInt i)" by simp
  from inv have l: "length (board g) = 9" and m: "moves g = occupied (board g)"
    by (simp_all add: match_inv_def)
  from place_inv[OF inv cm] have m': "moves (place g i) = occupied (board (place g i))"
    by (simp add: match_inv_def)
  from place_cells[OF l cm] a m m' k show ?thesis by blast
qed

theorem play_invariant_witness:
  "(1, place new_game 4, PyInt 0) \<in> set (play_loop new_game None [PyInt 4, PyInt 4, PyNone, PyInt 0])
   \<and> check_move (place new_game 4) (PyInt 0)
   \<and> board (place (place new_game 4) 0) ! 0 = Some MarkO
   \<and> board (place (place new_game 4) 0) ! 4 = Some MarkX
   \<and> moves (place (place new_game 4) 0) = 2
   \<and> occupied (board (place (place new_game 4) 0)) = 2"
proof -
  have 1: "(1, place new_game 4, PyInt 0)
           \<in> set (play_loop new_game None [PyInt 4, PyInt 4, PyNone, PyInt 0])" by code_simp
  have 2: "check_move (place new_game 4) (PyInt 0)" by code_simp
  have 3: "board (place new_game 4) ! 4 = Some MarkX" by code_simp
  have 4: "moves (place new_game 4) = 1" by code_simp
  from play_invariant[OF 1 2] 3 4 have
    "board (place (place new_game 4) 0) ! 0 = Some MarkO
     \<and> board (place (place new_game 4) 0) ! 4 = Some MarkX
     \<and> moves (place (place new_game 4) 0) = occupied (board (place (place new_game 4) 0))"
    by auto
  moreover have "moves (place (place new_game 4) 0) = 2" by code_simp
  ultimately show ?thesis using 1 2 by simp
qed

text \<open>
  Claim C8. On a board of nine cells \<open>check_move\<close> is True exactly for an int from 0 to 8
  whose cell is empty. A rejected answer changes nothing and raises nothing: in the log of
  \<open>game.play\<close> the call after a rejected answer goes to the same participant in the same
  state (same board, same move count), and the result of the run is the result without
  the rejected answer.
\<close>

theorem check_move_legal:
  assumes "length (board g) = 9"
  shows "check_move g a = (\<exists>i. a = PyInt i \<and> 0 \<le> i \<and> i \<le> 8 \<and> board g ! nat i = None)
       \<and> (Suc n < length (play_loop g w as) \<and> play_loop g w as ! n = (k, s, x)
            \<and> \<not> check_move s x \<longrightarrow> (\<exists>x'. play_loop g w as ! Suc n = (k, s, x')))
       \<and> (\<not> check_move g a \<longrightarrow> play_result g w (a # as) = play_result g w as)"
proof (intro conjI impI)
  show "check_move g a = (\<exists>i. a = PyInt i \<and> 0 \<le> i \<and> i \<le> 8 \<and> board g ! nat i = None)"
    by (cases a) (auto simp: check_move_def)
next
  assume "Suc n < length (play_loop g w as) \<and> play_loop g w as ! n = (k, s, x) \<and> \<not> check_move s x"
  then show "\<exists>x'. play_loop g w as ! Suc n = (k, s, x')"
    using play_loop_retry by blast
next
  assume "\<not> check_move g a"
  then show "play_result g w (a # as) = play_result g w as"
    by (cases as) simp_all
qed

theorem check_move_legal_witness:
  "length (board new_game) = 9
   \<and> \<not> check_move new_game (PyInt 9) \<and> \<not> check_move new_game PyNone
   \<and> check_move new_game (PyInt 8)
   \<and> \<not> check_move (place new_game 4) (PyInt 4)
   \<and> play_loop new_game None [PyInt 4, PyInt 4, PyNone, PyInt 0] ! 1
       = (1, place new_game 4, PyInt 4)
   \<and> (\<exists>x'. play_loop new_game None [PyInt 4, PyInt 4, PyNone, PyInt 0] ! Suc 1
       = (1, place new_game 4, x'))
   \<and> play_result new_game None [PyInt 9, PyInt 4, PyInt 4, PyNone, PyInt 0]
       = play_result new_game None [PyInt 4, PyInt 4, PyNone, PyInt 0]"
proof -
  let ?as = "[PyInt 4, PyInt 4, PyNone, PyInt 0]"
  have l: "length (board new_game) = 9" by code_simp
  have c9: "\<not> check_move new_game (PyInt 9)" by code_simp
  have cn: "\<not> check_move new_game PyNone" by code_simp
  have c8: "check_move new_game (PyInt 8)" by code_simp
  have c4: "\<not> check_move (place new_game 4) (PyInt 4)" by code_simp
  have n: "Suc 1 < length (play_loop new_game None ?as)" by code_simp
  have e: "play_loop new_game None ?as ! 1 = (1, place new_game 4, PyInt 4)" by code_simp
  from check_move_legal[where g = new_game and a = "PyInt 9" and n = 1 and w = None
      and as = ?as and k = 1 and s = "place new_game 4" and x = "PyInt 4", OF l]
    n e c4 c9
  have "(\<exists>x'. play_loop new_game None ?as ! Suc 1 = (1, place new_game 4, x'))
        \<and> play_result new_game None (PyInt 9 # ?as) = play_result new_game None ?as"
    by blast
  with l c9 cn c8 c4 e show ?thesis by blast
qed

section \<open>Facts about the store\<close>

lemma extends_refl: "extends s s"
  by (simp add: extends_def)

lemma extends_trans: "extends s s' \<Longrightarrow> extends s' s'' \<Longrightarrow> extends s s''"
proof -
  assume a: "extends s s'" and b: "extends s' s''"
  have tk: "take n zs = xs" if "take n ys = xs" "take k zs = ys" "n \<le> k" for n k and xs ys zs :: "'a list"
  proof -
    from that have "take n (take k zs) = xs" by simp
    with that(3) show ?thesis by (simp add: min_def)
  qed
  from a b show ?thesis
    unfolding extends_def by (auto intro: tk)
qed

lemma extends_nth:
  assumes "extends s s'"
  shows "r < length (lists s) \<Longrightarrow> lists s' ! r = lists s ! r"
    and "a < length (objs s) \<Longrightarrow> objs s' ! a = objs s ! a"
proof -
  from assms have l: "take (length (lists s)) (lists s') = lists s"
    and ob: "take (length (objs s)) (objs s') = objs s" by (simp_all add: extends_def)
  show "lists s' ! r = lists s ! r" if "r < length (lists s)"
    using nth_take[OF that, of "lists s'"] l by simp
  show "objs s' ! a = objs s ! a" if "a < length (objs s)"
    using nth_take[OF that, of "objs s'"] ob by simp
qed

lemma extends_view: "extends s s' \<Longrightarrow> in_store s a \<Longrightarrow> view s' a = view s a \<and> in_store s' a"
  by (auto simp: view_def in_store_def extends_nth dest: extends_nth simp: extends_def)


lemma dc_props:
  assumes "in_store s a" "dc s a = (h, s1)"
  shows "extends s s1" and "view s1 h = view s a" and "in_store s1 h"
    and "board_ref (objs s1 ! h) = length (lists s)"
    and "lists s1 = lists s @ [lists s ! board_ref (objs s ! a)]"
proof -
  from assms(2) have h: "h = length (objs s)"
    and l: "lists s1 = lists s @ [lists s ! board_ref (objs s ! a)]"
    and ob: "objs s1 = objs s @ [\<lparr>board_ref = length (lists s), obj_moves = obj_moves (objs s ! a)\<rparr>]"
    by (auto simp: dc_def Let_def)
  show "extends s s1" by (simp add: extends_def l ob)
  show "view s1 h = view s a" by (simp add: view_def h l ob)
  from assms(1) show "in_store s1 h" by (simp add: in_store_def h l ob)
  show "board_ref (objs s1 ! h) = length (lists s)" by (simp add: h ob)
  show "lists s1 = lists s @ [lists s ! board_ref (objs s ! a)]" by (rule l)
qed

lemma hypo_write:
  assumes "in_store s a" "dc s a = (h, s1)"
  shows "extends s (set_cell s1 h i v)"
    and "view (set_cell s1 h i v) h = (view s a)\<lparr>board := (board (view s a))[i := v]\<rparr>"
proof -
  let ?s2 = "set_cell s1 h i v" and ?cells = "lists s ! board_ref (objs s ! a)"
  note d = dc_props[OF assms]
  have l2: "lists ?s2 = lists s @ [?cells[i := v]]"
    by (simp add: set_cell_def Let_def d(4) d(5))
  have o2: "objs ?s2 = objs s1" by (simp add: set_cell_def Let_def)
  from d(1) have "extends s s1" .
  then show "extends s ?s2" by (simp add: extends_def l2 o2)
  from d(2) have "obj_moves (objs s1 ! h) = obj_moves (objs s ! a)" by (simp add: view_def)
  then show "view ?s2 h = (view s a)\<lparr>board := (board (view s a))[i := v]\<rparr>"
    by (simp add: view_def l2 o2 d(4))
qed

lemma fork_loop_st_pure:
  "in_store s a \<Longrightarrow> fork_loop_st s a m cs = (r, s')
   \<Longrightarrow> extends s s' \<and> r = fork_loop (view s a) m cs"
proof (induction cs arbitrary: s)
  case Nil
  then show ?case by (simp add: extends_refl)
next
  case (Cons i cs)
  obtain h s1 where d: "dc s a = (h, s1)" by (cases "dc s a")
  note dp = dc_props[OF Cons.prems(1) d]
  show ?case
  proof (cases "board (view s a) ! i = None")
    case False
    with Cons.prems(2) d dp(2) have run: "fork_loop_st s1 a m cs = (r, s')" by simp
    from extends_view[OF dp(1) Cons.prems(1)] have v: "view s1 a = view s a" "in_store s1 a"
      by simp_all
    from Cons.IH[OF v(2) run] v(1) have "extends s1 s'" "r = fork_loop (view s a) m cs"
      by simp_all
    moreover have "fork_loop (view s a) m (i # cs) = fork_loop (view s a) m cs"
      using False by (simp only: fork_loop.simps if_False)
    ultimately show ?thesis using extends_trans[OF dp(1)] by simp
  next
    case True
    let ?s2 = "set_cell s1 h i (Some m)"
    note hw = hypo_write[OF Cons.prems(1) d, of i "Some m"]
    show ?thesis
    proof (cases "card (threat_cells (board (view ?s2 h)) m threes {}) = 2")
      case fork: True
      with Cons.prems(2) d dp(2) True have "r = Some i" "s' = ?s2" by (simp_all add: Let_def)
      with hw fork True show ?thesis by (simp add: Let_def)
    next
      case nofork: False
      with Cons.prems(2) d dp(2) True have run: "fork_loop_st ?s2 a m cs = (r, s')"
        by (simp add: Let_def)
      from extends_view[OF hw(1) Cons.prems(1)] have v: "view ?s2 a = view s a" "in_store ?s2 a"
        by simp_all
      from Cons.IH[OF v(2) run] v(1) have "extends ?s2 s'" "r = fork_loop (view s a) m cs"
        by simp_all
      with extends_trans[OF hw(1)] nofork hw(2) True show ?thesis by (simp add: Let_def)
    qed
  qed
qed

lemma force_loop_st_pure:
  "in_store s a \<Longrightarrow> force_loop_st s a m cs = (r, s')
   \<Longrightarrow> extends s s' \<and> r = force_loop (view s a) m cs"
proof (induction cs arbitrary: s)
  case Nil
  then show ?case by (simp add: extends_refl)
next
  case (Cons i cs)
  obtain h s1 where d: "dc s a = (h, s1)" by (cases "dc s a")
  let ?s2 = "set_cell s1 h i (Some m)"
  let ?skip = "in_twos_gt1 (check_for_wins (view ?s2 h) m)
                 (check_for_twos (view ?s2 h) (other_mark m))"
  note hw = hypo_write[OF Cons.prems(1) d, of i "Some m"]
  show ?case
  proof (cases ?skip)
    case False
    with Cons.prems(2) d have "r = Some i" "s' = ?s2"
      by (simp_all add: Let_def check_for_wins_st_def check_for_twos_st_def)
    with hw False show ?thesis by (simp add: Let_def)
  next
    case True
    with Cons.prems(2) d have run: "force_loop_st ?s2 a m cs = (r, s')"
      by (simp add: Let_def check_for_wins_st_def check_for_twos_st_def)
    from extends_view[OF hw(1) Cons.prems(1)] have v: "view ?s2 a = view s a" "in_store ?s2 a"
      by simp_all
    from Cons.IH[OF v(2) run] v(1) have "extends ?s2 s'" "r = force_loop (view s a) m cs"
      by simp_all
    with extends_trans[OF hw(1)] True hw(2) show ?thesis by (simp add: Let_def)
  qed
qed

lemma rules_5_to_9_split:
  "rules_5_to_9 g m =
     (case fork_loop g (other_mark m) [0..<9] of Some i \<Rightarrow> Some i | None \<Rightarrow> rules_6_to_9 g m)"
  unfolding rules_5_to_9_def rules_6_to_9_def by (rule refl)


lemma move_st_pure:
  assumes inst: "in_store s a" and run: "move_st s a m = (r, s')"
  shows "extends s s' \<and> r = move (view s a) m"
proof -
  let ?g = "view s a"
  show ?thesis
  proof (cases "check_for_wins ?g m")
    case (Some c)
    with run have "r = Some c" "s' = s"
      by (simp_all add: move_st_def check_for_wins_st_def)
    moreover have "move ?g m = Some c" using Some by (simp add: move_def)
    ultimately show ?thesis by (simp add: extends_refl)
  next
    case r1: None
    show ?thesis
    proof (cases "check_for_wins ?g (other_mark m)")
      case (Some c)
      with run r1 have "r = Some c" "s' = s"
        by (simp_all add: move_st_def check_for_wins_st_def)
      moreover have "move ?g m = Some c" using Some r1 by (simp add: move_def)
      ultimately show ?thesis by (simp add: extends_refl)
    next
      case r2: None
      obtain r3 s3 where f3: "fork_loop_st s a m [0..<9] = (r3, s3)"
        by (cases "fork_loop_st s a m [0..<9]")
      from fork_loop_st_pure[OF inst f3]
      have e3: "extends s s3" and p3: "fork_loop ?g m [0..<9] = r3" by simp_all
      from extends_view[OF e3 inst] have v3: "view s3 a = ?g" and i3: "in_store s3 a" by simp_all
      show ?thesis
      proof (cases r3)
        case (Some i)
        with run r1 r2 f3 have "r = Some i" "s' = s3"
          by (simp_all add: move_st_def check_for_wins_st_def)
        moreover have "move ?g m = Some i" using r1 r2 p3 Some by (simp add: move_def)
        ultimately show ?thesis using e3 by simp
      next
        case n3: None
        obtain r4 s4 where f4: "force_loop_st s3 a m (map fst (check_for_twos ?g m)) = (r4, s4)"
          by (cases "force_loop_st s3 a m (map fst (check_for_twos ?g m))")
        from force_loop_st_pure[OF i3 f4] v3
        have e4: "extends s3 s4" and p4: "force_loop ?g m (map fst (check_for_twos ?g m)) = r4"
          by simp_all
        from extends_trans[OF e3 e4] have e04: "extends s s4" .
        from extends_view[OF e04 inst] have v4: "view s4 a = ?g" and i4: "in_store s4 a"
          by simp_all
        show ?thesis
        proof (cases r4)
          case (Some i)
          with run r1 r2 f3 n3 f4 v3 have "r = Some i" "s' = s4"
            by (simp_all add: move_st_def check_for_wins_st_def check_for_twos_st_def)
          moreover have "move ?g m = Some i" using r1 r2 p3 n3 p4 Some by (simp add: move_def)
          ultimately show ?thesis using e04 by simp
        next
          case n4: None
          obtain r5 s5 where f5: "fork_loop_st s4 a (other_mark m) [0..<9] = (r5, s5)"
            by (cases "fork_loop_st s4 a (other_mark m) [0..<9]")
          from fork_loop_st_pure[OF i4 f5] v4
          have e5: "extends s4 s5" and p5: "fork_loop ?g (other_mark m) [0..<9] = r5"
            by simp_all
          from extends_trans[OF e04 e5] have e05: "extends s s5" .
          from extends_view[OF e05 inst] have v5: "view s5 a = ?g" by simp
          have pure: "move ?g m = rules_5_to_9 ?g m"
            using r1 r2 p3 n3 p4 n4 by (simp add: move_def)
          show ?thesis
          proof (cases r5)
            case (Some i)
            with run r1 r2 f3 n3 f4 n4 f5 v3 have "r = Some i" "s' = s5"
              by (simp_all add: move_st_def check_for_wins_st_def check_for_twos_st_def)
            moreover have "move ?g m = Some i"
              using pure p5 Some by (simp add: rules_5_to_9_split)
            ultimately show ?thesis using e05 by simp
          next
            case n5: None
            with run r1 r2 f3 n3 f4 n4 f5 v3 v5 have "r = rules_6_to_9 ?g m" "s' = s5"
              by (simp_all add: move_st_def check_for_wins_st_def check_for_twos_st_def)
            moreover have "move ?g m = rules_6_to_9 ?g m"
              using pure p5 n5 by (simp add: rules_5_to_9_split)
            ultimately show ?thesis using e05 by simp
          qed
        qed
      qed
    qed
  qed
qed


section \<open>Claim about what the queries and the strategist write\<close>

text \<open>
  Claim C9. For a match in the store: \<open>winner\<close>, \<open>check_for_wins\<close> and \<open>check_for_twos\<close> return
  the store as it was; \<open>computer.move\<close> leaves the board and the move count of the match
  as they were, and every list and object that existed before the call too, since the
  look-ahead of rules 3 to 5 writes only into the lists of the copies it made; its result
  is the one computed from the contents of the board alone, so a second call, and the
  queries after it, return what they returned before.
\<close>

theorem move_leaves_match:
  assumes "in_store s a"
  shows "snd (winner_st s a) = s \<and> snd (check_for_wins_st s a k) = s
       \<and> snd (check_for_twos_st s a k) = s
       \<and> view (snd (move_st s a m)) a = view s a
       \<and> extends s (snd (move_st s a m))
       \<and> fst (move_st s a m) = move (view s a) m
       \<and> fst (move_st (snd (move_st s a m)) a m) = fst (move_st s a m)
       \<and> fst (winner_st (snd (move_st s a m)) a) = fst (winner_st s a)
       \<and> fst (check_for_wins_st (snd (move_st s a m)) a k) = fst (check_for_wins_st s a k)
       \<and> fst (check_for_twos_st (snd (move_st s a m)) a k) = fst (check_for_twos_st s a k)"
proof -
  obtain r s' where run: "move_st s a m = (r, s')" by (cases "move_st s a m")
  from move_st_pure[OF assms run] have e: "extends s s'" and r: "r = move (view s a) m"
    by simp_all
  from extends_view[OF e assms] have v: "view s' a = view s a" and i: "in_store s' a"
    by simp_all
  obtain r2 s2 where run2: "move_st s' a m = (r2, s2)" by (cases "move_st s' a m")
  from move_st_pure[OF i run2] v r have "r2 = r" by simp
  with run run2 e r v show ?thesis
    by (simp add: winner_st_def check_for_wins_st_def check_for_twos_st_def)
qed

theorem move_leaves_match_witness:
  "in_store o_corner_store 0 \<and> view o_corner_store 0 = o_corner_board
   \<and> fst (move_st o_corner_store 0 MarkO) = Some 2
   \<and> length (lists (snd (move_st o_corner_store 0 MarkO))) = 12
   \<and> view (snd (move_st o_corner_store 0 MarkO)) 0 = o_corner_board
   \<and> fst (move_st (snd (move_st o_corner_store 0 MarkO)) 0 MarkO) = Some 2"
proof -
  have i: "in_store o_corner_store 0" by code_simp
  have v: "view o_corner_store 0 = o_corner_board" by code_simp
  have r: "fst (move_st o_corner_store 0 MarkO) = Some 2" by code_simp
  have n: "length (lists (snd (move_st o_corner_store 0 MarkO))) = 12" by code_simp
  from move_leaves_match[OF i, of MarkO MarkO] i v r n show ?thesis by simp
qed

end
